theory Spec2Isabelle
  imports Complex_Main "HOL-Library.Word" "HOL-Library.Log_Nat"
begin

unbundle bit_operations_syntax

section \<open>The inverse Bloom filter of \<^verbatim>\<open>filter.go\<close>\<close>

text \<open>
  The model follows \<^verbatim>\<open>filter.go\<close> function by function, for one goroutine: every
  call runs to its end before the next one starts.

  \<^item> A key is the byte sequence a \<^verbatim>\<open>[]byte\<close> argument views, a \<open>byte list\<close>. A nil key
    and an empty key both view the empty sequence \<open>[]\<close>; the code never compares a key
    with nil.
  \<^item> A slot of \<^verbatim>\<open>array []*[]byte\<close> is a pointer: \<open>None\<close> is the nil pointer of a slot
    that was never written, \<open>Some k\<close> a pointer to a slice that views \<open>k\<close>. The model
    stores the bytes themselves, so it describes callers that do not overwrite a key
    buffer after handing it to \<^verbatim>\<open>Observe\<close>.
  \<^item> A \<^verbatim>\<open>[]byte\<close> result that may be nil is a \<open>byte list option\<close>, \<open>None\<close> the nil slice.
  \<^item> \<^verbatim>\<open>int\<close> is \<open>int\<close> (no arithmetic of the code on it can overflow for the sizes it
    accepts), \<^verbatim>\<open>uint32\<close> is \<open>32 word\<close>, a byte is \<open>8 word\<close>.
  \<^item> A run-time panic (an index out of range) is the result \<open>None\<close>.
\<close>

type_synonym byte = "8 word"
type_synonym uint32 = "32 word"

subsection \<open>Errors and constants\<close>

datatype error = ErrSizeTooLarge | ErrSizeTooSmall

definition MaxSize :: int where
  "MaxSize = push_bit 30 1"

subsection \<open>The hasher: \<^verbatim>\<open>fnv.New32a()\<close> of Go's standard library\<close>

text \<open>
  \<^verbatim>\<open>hash/fnv\<close> belongs to Go's standard library, not to the repository. Its 32-bit FNV-1a
  hasher is one \<^verbatim>\<open>uint32\<close>: \<^verbatim>\<open>New32a\<close> and \<^verbatim>\<open>Reset\<close> set it to the offset basis,
  \<^verbatim>\<open>Write\<close> does \<^verbatim>\<open>hash ^= uint32(c); hash *= prime32\<close> for each byte, and \<^verbatim>\<open>Sum(in)\<close> appends
  the four bytes of the state to \<^verbatim>\<open>in\<close>, most significant first, leaving the state as it is.
\<close>

definition offset32 :: uint32 where
  "offset32 = 2166136261"

definition prime32 :: uint32 where
  "prime32 = 16777619"

definition New32a :: uint32 where
  "New32a = offset32"

fun Write :: "uint32 \<Rightarrow> byte list \<Rightarrow> uint32" where
  "Write h [] = h"
| "Write h (c # cs) = Write ((h XOR ucast c) * prime32) cs"

definition Sum :: "uint32 \<Rightarrow> byte list \<Rightarrow> byte list" where
  "Sum h b = b @ [ucast (drop_bit 24 h), ucast (drop_bit 16 h), ucast (drop_bit 8 h), ucast h]"

definition Reset :: "uint32 \<Rightarrow> uint32" where
  "Reset h = offset32"

subsection \<open>\<^verbatim>\<open>uintHash.Sum32\<close>\<close>

text \<open>
  \<^verbatim>\<open>sum[0]\<close> and \<^verbatim>\<open>sum[1:3]\<close> need three bytes; a shorter \<^verbatim>\<open>sum\<close> would panic. The loop
  \<^verbatim>\<open>for _, val := range sum[1:3]\<close> is the left fold \<open>Sum32_loop\<close> over the two bytes.
\<close>

fun Sum32_loop :: "uint32 \<Rightarrow> byte list \<Rightarrow> uint32" where
  "Sum32_loop x [] = x"
| "Sum32_loop x (val # vals) = Sum32_loop (push_bit 3 x + ucast val) vals"

definition Sum32 :: "uint32 \<Rightarrow> uint32 option" where
  "Sum32 u =
     (let sum = Sum u []
      in if length sum < 3 then None
         else Some (Sum32_loop (ucast (sum ! 0)) (take 2 (drop 1 sum))))"

subsection \<open>The filter\<close>

record InverseBloomFilter =
  array :: "byte list option list"
  sizeMask :: uint32
  hash :: uint32

text \<open>
  \<^verbatim>\<open>int(math.Pow(2, math.Ceil(math.Log2(float64(size)))))\<close>. The \<^verbatim>\<open>float64\<close> functions are
  read as the real functions they approximate: \<open>log 2\<close>, \<open>ceiling\<close> and \<open>powr\<close>; \<^verbatim>\<open>int(_)\<close>
  truncates, which is \<open>floor\<close> on the positive values met here. On the sizes the
  constructor lets through, \<open>1 \<dots> 2^30\<close>, the reading is exact: \<^verbatim>\<open>float64\<close> holds each of
  them, \<^verbatim>\<open>math.Log2\<close> is exact on powers of two, and for any other size the logarithm is
  further from an integer than the rounding error of \<^verbatim>\<open>float64\<close>.
  The parameter \<^verbatim>\<open>size\<close> is written \<open>sz\<close>, since \<open>size\<close> is a constant of HOL.
\<close>

definition roundPow2 :: "int \<Rightarrow> int" where
  "roundPow2 sz = \<lfloor>2 powr real_of_int \<lceil>log 2 (real_of_int sz)\<rceil>\<rfloor>"

definition NewInverseBloomFilter :: "int \<Rightarrow> error + InverseBloomFilter" where
  "NewInverseBloomFilter sz =
     (if sz > MaxSize then Inl ErrSizeTooLarge
      else if sz \<le> 0 then Inl ErrSizeTooSmall
      else let size' = roundPow2 sz
           in Inr \<lparr>array = replicate (nat size') None,
                   sizeMask = word_of_int (size' - 1),
                   hash = New32a\<rparr>)"

definition Size :: "InverseBloomFilter \<Rightarrow> int" where
  "Size i = int (length (array i))"

subsection \<open>\<^verbatim>\<open>getAndSet\<close>\<close>

text \<open>
  \<^verbatim>\<open>atomic.LoadPointer\<close> reads the slot, \<^verbatim>\<open>atomic.CompareAndSwapPointer\<close> writes the new
  pointer if the slot still holds the pointer that was read, and says whether it did.
  The \<^verbatim>\<open>for\<close> loop retries until the swap succeeds; not returning is \<open>None\<close>, as is the
  panic of \<^verbatim>\<open>arr[index]\<close> out of range.
\<close>

definition LoadPointer :: "byte list option list \<Rightarrow> nat \<Rightarrow> byte list option" where
  "LoadPointer arr n = arr ! n"

definition CompareAndSwapPointer ::
  "byte list option list \<Rightarrow> nat \<Rightarrow> byte list option \<Rightarrow> byte list option
     \<Rightarrow> bool \<times> byte list option list" where
  "CompareAndSwapPointer arr n old new =
     (if arr ! n = old then (True, arr[n := new]) else (False, arr))"

partial_function (option) getAndSet_loop ::
  "byte list option list \<Rightarrow> nat \<Rightarrow> byte list
     \<Rightarrow> (byte list option \<times> byte list option list) option" where
  "getAndSet_loop arr n key =
     (let oldKeyUnsafe = LoadPointer arr n
      in case CompareAndSwapPointer arr n oldKeyUnsafe (Some key) of
           (swapped, arr') \<Rightarrow>
             if swapped then Some (oldKeyUnsafe, arr')
             else getAndSet_loop arr' n key)"

definition getAndSet ::
  "byte list option list \<Rightarrow> int \<Rightarrow> byte list
     \<Rightarrow> (byte list option \<times> byte list option list) option" where
  "getAndSet arr index key =
     (if 0 \<le> index \<and> index < int (length arr)
      then getAndSet_loop arr (nat index) key
      else None)"

subsection \<open>\<^verbatim>\<open>Observe\<close>\<close>

text \<open>
  \<^verbatim>\<open>bytes.Equal\<close> of Go's standard library: same length and same bytes, and
  ``a nil argument is equivalent to an empty slice''.
\<close>

definition slice_bytes :: "byte list option \<Rightarrow> byte list" where
  "slice_bytes s = (case s of None \<Rightarrow> [] | Some bs \<Rightarrow> bs)"

definition bytes_Equal :: "byte list option \<Rightarrow> byte list option \<Rightarrow> bool" where
  "bytes_Equal a b = (slice_bytes a = slice_bytes b)"

text \<open>
  The index of \<^verbatim>\<open>Observe\<close>: \<^verbatim>\<open>i.hash.Write(key); uindex := i.hash.Sum32() & i.sizeMask\<close>.
\<close>

definition slotIndex :: "InverseBloomFilter \<Rightarrow> byte list \<Rightarrow> uint32 option" where
  "slotIndex i key = map_option (\<lambda>x. x AND sizeMask i) (Sum32 (Write (hash i) key))"

text \<open>
  \<^verbatim>\<open>int32(uindex)\<close> reads the 32 bits as a signed number (\<open>sint\<close>). The result is the
  boolean and the filter as the call leaves it.
\<close>

definition Observe :: "InverseBloomFilter \<Rightarrow> byte list \<Rightarrow> (bool \<times> InverseBloomFilter) option" where
  "Observe i key =
     (case slotIndex i key of
        None \<Rightarrow> None
      | Some uindex \<Rightarrow>
          (case getAndSet (array i) (sint uindex) key of
             None \<Rightarrow> None
           | Some (oldId, arr') \<Rightarrow>
               Some (bytes_Equal oldId (Some key),
                     i\<lparr>array := arr', hash := Reset (Write (hash i) key)\<rparr>)))"

text \<open>A sequence of \<^verbatim>\<open>Observe\<close> calls on one filter, with the answers in call order.\<close>

fun ObserveAll ::
  "InverseBloomFilter \<Rightarrow> byte list list \<Rightarrow> (bool list \<times> InverseBloomFilter) option" where
  "ObserveAll i [] = Some ([], i)"
| "ObserveAll i (key # keys) =
     (case Observe i key of
        None \<Rightarrow> None
      | Some (b, i') \<Rightarrow>
          (case ObserveAll i' keys of
             None \<Rightarrow> None
           | Some (bs, i'') \<Rightarrow> Some (b # bs, i'')))"

text \<open>
  A filter from the constructor and a sequence of calls on it: the answers, or \<open>None\<close>
  when the constructor refuses the size or a call panics.
\<close>

definition fresh_run :: "int \<Rightarrow> byte list list \<Rightarrow> bool list option" where
  "fresh_run sz keys =
     (case NewInverseBloomFilter sz of
        Inl e \<Rightarrow> None
      | Inr f \<Rightarrow> map_option fst (ObserveAll f keys))"

subsection \<open>The index function as the specification words it\<close>

text \<open>
  The 32-bit FNV-1a digest of the key, its bytes from the most significant one, the fold
  \<open>x = d[0]; x = (x << 3) + d[1]; x = (x << 3) + d[2]\<close>, and \<open>index = x & indexMask\<close>.
  These three definitions follow the specification, not the code; \<open>slotIndex\<close> above is
  the code.
\<close>

definition fnv1a32 :: "byte list \<Rightarrow> uint32" where
  "fnv1a32 key = foldl (\<lambda>h c. (h XOR ucast c) * 16777619) 2166136261 key"

definition digest_bytes :: "uint32 \<Rightarrow> byte list" where
  "digest_bytes d = map (\<lambda>n. ucast (drop_bit (8 * n) d)) [3, 2, 1, 0]"

definition spec_index :: "uint32 \<Rightarrow> byte list \<Rightarrow> uint32" where
  "spec_index indexMask key =
     (let d = digest_bytes (fnv1a32 key);
          x0 = ucast (d ! 0);
          x1 = push_bit 3 x0 + ucast (d ! 1);
          x2 = push_bit 3 x1 + ucast (d ! 2)
      in x2 AND indexMask)"

text \<open>
  What every filter in use satisfies: the table has \<open>sizeMask + 1\<close> slots and the hasher
  is in its initial state between two calls.
\<close>

definition filter_inv :: "InverseBloomFilter \<Rightarrow> bool" where
  "filter_inv i = (length (array i) = Suc (unat (sizeMask i)) \<and> hash i = offset32)"

section \<open>The hasher and the index\<close>

lemma Write_foldl: "Write h key = foldl (\<lambda>h c. (h XOR ucast c) * 16777619) h key"
  by (induction key arbitrary: h) (simp_all add: prime32_def)

lemma Write_fnv1a32: "Write offset32 key = fnv1a32 key"
  by (simp add: Write_foldl fnv1a32_def offset32_def)

text \<open>\<^verbatim>\<open>Sum(nil)\<close> has four bytes, so \<^verbatim>\<open>Sum32\<close> never panics; the fourth byte is not read.\<close>

lemma Sum32_eq:
  "Sum32 h = Some (push_bit 3 (push_bit 3 (ucast (ucast (drop_bit 24 h) :: byte))
                      + ucast (ucast (drop_bit 16 h) :: byte))
                  + ucast (ucast (drop_bit 8 h) :: byte))"
  by (simp add: Sum32_def Sum_def Let_def)

lemma slotIndex_spec:
  "hash i = offset32 \<Longrightarrow> slotIndex i key = Some (spec_index (sizeMask i) key)"
  by (simp add: slotIndex_def Sum32_eq Write_fnv1a32 spec_index_def digest_bytes_def Let_def)

lemma unat_ucast_byte: "unat (ucast (b :: byte) :: uint32) < 256"
proof -
  have "unat (ucast b :: uint32) \<le> unat b"
    by (simp add: unsigned_ucast_eq)
  moreover have "unat b < 2 ^ LENGTH(8)"
    by (rule unsigned_less)
  ultimately show ?thesis by simp
qed

lemma unat_shift_add: "unat (push_bit 3 (x :: uint32) + y) \<le> 8 * unat x + unat y"
proof -
  have "unat (push_bit 3 x + y) = (unat x * 8 + unat y) mod 2 ^ 32"
    by (simp add: push_bit_eq_mult unat_word_ariths mod_simps)
  also have "\<dots> \<le> unat x * 8 + unat y"
    by (rule mod_less_eq_dividend)
  finally show ?thesis by simp
qed

text \<open>Three bytes folded with shifts by three bits stay below \<open>255 * 73\<close>.\<close>

lemma Sum32_bound:
  assumes "Sum32 h = Some x"
  shows "unat x \<le> 18615"
proof -
  define a b c :: uint32 where "a = ucast (ucast (drop_bit 24 h) :: byte)"
    and "b = ucast (ucast (drop_bit 16 h) :: byte)"
    and "c = ucast (ucast (drop_bit 8 h) :: byte)"
  have x: "x = push_bit 3 (push_bit 3 a + b) + c"
    using assms by (simp add: Sum32_eq a_def b_def c_def)
  have "unat a < 256" "unat b < 256" "unat c < 256"
    by (simp_all only: a_def b_def c_def unat_ucast_byte)
  moreover have "unat (push_bit 3 a + b) \<le> 8 * unat a + unat b"
    by (rule unat_shift_add)
  moreover have "unat x \<le> 8 * unat (push_bit 3 a + b) + unat c"
    unfolding x by (rule unat_shift_add)
  ultimately show ?thesis by linarith
qed

lemma sint_small:
  assumes le: "unat (n :: uint32) \<le> 18615"
  shows "sint n = int (unat n)"
proof -
  have u: "uint n = int (unat n)"
    by (rule uint_nat)
  have "0 \<le> uint n"
    by simp
  then have a: "- (2 ^ 31) \<le> uint n"
    by (rule order_trans [rotated]) simp
  from le have "int (unat n) \<le> int 18615"
    by (simp only: of_nat_le_iff)
  then have "uint n \<le> 18615"
    by (simp only: u of_nat_numeral)
  then have b: "uint n < 2 ^ 31"
    by (rule le_less_trans) simp
  have "signed_take_bit 31 (uint n) = uint n"
    by (rule signed_take_bit_int_eq_self [OF a b])
  moreover have "sint n = signed_take_bit (LENGTH(32) - Suc 0) (uint n)"
    by (rule sint_uint)
  ultimately have "sint n = uint n"
    by simp
  then show "sint n = int (unat n)"
    by (simp only: u)
qed

lemma slotIndex_bounds:
  assumes "slotIndex i key = Some n"
  shows "unat n \<le> unat (sizeMask i)" and "sint n = int (unat n)"
proof -
  from assms obtain x where x: "Sum32 (Write (hash i) key) = Some x" and n: "n = x AND sizeMask i"
    by (auto simp: slotIndex_def)
  show "unat n \<le> unat (sizeMask i)"
    unfolding n by (rule word_and_le1 [THEN word_le_nat_alt [THEN iffD1]])
  have "unat n \<le> unat x"
    unfolding n by (rule word_and_le2 [THEN word_le_nat_alt [THEN iffD1]])
  with Sum32_bound [OF x] have "unat n \<le> 18615" by simp
  then show "sint n = int (unat n)"
    by (rule sint_small)
qed

section \<open>The slot exchange\<close>

text \<open>With one goroutine the swap succeeds at the first attempt.\<close>

lemma getAndSet_loop_once:
  "getAndSet_loop arr n key = Some (arr ! n, arr[n := Some key])"
  by (subst getAndSet_loop.simps) (simp add: LoadPointer_def CompareAndSwapPointer_def)

lemma getAndSet_eq:
  "getAndSet arr index key =
     (if 0 \<le> index \<and> index < int (length arr)
      then Some (arr ! nat index, arr[nat index := Some key]) else None)"
  by (simp add: getAndSet_def getAndSet_loop_once)

section \<open>Rounding the size\<close>

lemma ceiling_log2_eq:
  assumes "2 ^ k < 2 * sz" "sz \<le> 2 ^ k"
  shows "\<lceil>log 2 (real_of_int sz)\<rceil> = int k"
proof -
  from assms(1) have pos: "0 < sz"
    by (smt (verit) zero_less_power)
  then obtain n where n: "sz = int n" "0 < n"
    using zero_less_imp_eq_int by blast
  have "int n \<le> int (2 ^ k)" "int (2 ^ k) < int (2 * n)"
    using assms n by simp_all
  then have le: "n \<le> 2 ^ k" and lt: "2 ^ k < 2 * n"
    by (simp_all only: of_nat_le_iff of_nat_less_iff)
  have "ceillog2 n = k"
    by (rule ceillog2_eqI [OF le lt])
  then have k: "nat \<lceil>log 2 (real n)\<rceil> = k"
    using n by (simp add: ceillog2_def)
  have "0 \<le> log 2 (real n)"
    using n by simp
  then have "0 \<le> \<lceil>log 2 (real n)\<rceil>"
    by linarith
  then have "\<lceil>log 2 (real n)\<rceil> = int (nat \<lceil>log 2 (real n)\<rceil>)"
    by simp
  then show ?thesis
    using n k by simp
qed

lemma roundPow2_between:
  assumes "2 ^ k < 2 * sz" "sz \<le> 2 ^ k"
  shows "roundPow2 sz = 2 ^ k"
proof -
  have "roundPow2 sz = \<lfloor>2 powr real k\<rfloor>"
    by (simp add: roundPow2_def ceiling_log2_eq [OF assms])
  also have "2 powr real k = real_of_int (2 ^ k)"
    by (simp add: powr_realpow)
  finally show ?thesis
    by (simp only: floor_of_int)
qed

lemma pow2_bracket:
  assumes "0 < (sz::int)"
  shows "\<exists>k. 2 ^ k < 2 * sz \<and> sz \<le> 2 ^ k"
proof -
  from assms obtain n where n: "sz = int n" "0 < n"
    using zero_less_imp_eq_int by blast
  have "n \<le> 2 ^ ceillog2 n" "2 ^ ceillog2 n < 2 * n"
    using n by (simp_all add: le_two_power_ceillog2 two_power_ceillog2_gt)
  then have "int n \<le> int (2 ^ ceillog2 n)" "int (2 ^ ceillog2 n) < int (2 * n)"
    by (simp_all only: of_nat_le_iff of_nat_less_iff)
  then have "sz \<le> 2 ^ ceillog2 n \<and> 2 ^ ceillog2 n < 2 * sz"
    using n by simp
  then show ?thesis by blast
qed

lemma unat_mask_word:
  assumes "1 \<le> m" "m < 2147483648"
  shows "Suc (unat (word_of_int (m - 1) :: uint32)) = nat m"
proof -
  have "0 \<le> m - 1" "m - 1 < 2 ^ 32"
    using assms by simp_all
  then have "take_bit 32 (m - 1) = m - 1"
    by (rule take_bit_int_eq_self)
  moreover have "uint (word_of_int (m - 1) :: uint32) = take_bit LENGTH(32) (m - 1)"
    by (rule uint_word_of_int_eq)
  ultimately have "uint (word_of_int (m - 1) :: uint32) = m - 1"
    by simp
  then have "unat (word_of_int (m - 1) :: uint32) = nat (m - 1)"
    by (simp only: unat_eq_nat_uint)
  then show ?thesis
    using assms by simp
qed

section \<open>Construction\<close>

lemma MaxSize_val: "MaxSize = 1073741824"
  by (simp add: MaxSize_def)

text \<open>
  C4. \<^verbatim>\<open>NewInverseBloomFilter(size)\<close> fails with \<^verbatim>\<open>ErrSizeTooSmall\<close> exactly when
  \<open>size \<le> 0\<close>, with \<^verbatim>\<open>ErrSizeTooLarge\<close> exactly when \<open>size > MaxSize = 2^30\<close>, and succeeds
  for every other size, \<open>MaxSize\<close> included; the two errors are different values.
\<close>

theorem NewInverseBloomFilter_errors:
  "(NewInverseBloomFilter sz = Inl ErrSizeTooSmall) = (sz \<le> 0)
   \<and> (NewInverseBloomFilter sz = Inl ErrSizeTooLarge) = (sz > MaxSize)
   \<and> (\<exists>f. NewInverseBloomFilter sz = Inr f) = (0 < sz \<and> sz \<le> MaxSize)
   \<and> (\<exists>f. NewInverseBloomFilter MaxSize = Inr f)
   \<and> MaxSize = 2 ^ 30
   \<and> ErrSizeTooSmall \<noteq> ErrSizeTooLarge"
  by (auto simp: NewInverseBloomFilter_def MaxSize_val Let_def)

lemma NewInverseBloomFilter_eq:
  assumes "2 ^ k < 2 * sz" "sz \<le> 2 ^ k" "sz \<le> MaxSize"
  shows "NewInverseBloomFilter sz =
           Inr \<lparr>array = replicate (2 ^ k) None, sizeMask = word_of_int (2 ^ k - 1),
                 hash = offset32\<rparr>"
proof -
  from assms(1) have pos: "0 < sz"
    by (smt (verit) zero_less_power)
  have "nat (2 ^ k) = (2 ^ k :: nat)"
    by (simp add: nat_power_eq)
  then show ?thesis
    using pos assms(3) by (simp add: NewInverseBloomFilter_def roundPow2_between [OF assms(1,2)] New32a_def)
qed

lemma NewInverseBloomFilter_inv:
  assumes "NewInverseBloomFilter sz = Inr f"
  shows "filter_inv f"
proof -
  from assms have pos: "0 < sz" and le: "sz \<le> MaxSize"
    by (auto simp: NewInverseBloomFilter_def split: if_splits)
  from pow2_bracket [OF pos] obtain k where k: "2 ^ k < 2 * sz" "sz \<le> 2 ^ k"
    by blast
  have f: "f = \<lparr>array = replicate (2 ^ k) None, sizeMask = word_of_int (2 ^ k - 1),
                 hash = offset32\<rparr>"
    using assms NewInverseBloomFilter_eq [OF k le] by simp
  have "(1::int) \<le> 2 ^ k" by simp
  moreover have "(2::int) ^ k < 2147483648"
    using k(1) le by (simp add: MaxSize_val)
  ultimately have "Suc (unat (word_of_int (2 ^ k - 1) :: uint32)) = nat (2 ^ k)"
    by (rule unat_mask_word)
  then show ?thesis
    by (simp add: f filter_inv_def nat_power_eq)
qed

lemma pow2_least:
  assumes "2 ^ k < 2 * (sz::int)" "sz \<le> 2 ^ j"
  shows "(2::int) ^ k \<le> 2 ^ j"
proof (rule ccontr)
  assume "\<not> (2::int) ^ k \<le> 2 ^ j"
  then have "(2::int) ^ j < 2 ^ k" by simp
  then have "j < k" by simp
  then have "Suc j \<le> k" by simp
  then have "(2::int) ^ Suc j \<le> 2 ^ k"
    by (rule power_increasing) simp
  with assms show False by simp
qed

text \<open>
  C5. For every size in \<open>(0, MaxSize]\<close> the constructor returns a filter whose \<^verbatim>\<open>Size()\<close> is
  a power of two, at least the size and less than twice the size; it is the least power
  of two that is at least the size, it equals the size exactly when the size is a power
  of two, and every slot is empty. The rounding is the real-number reading of the
  \<^verbatim>\<open>float64\<close> expression, see \<open>roundPow2\<close>.
\<close>

theorem NewInverseBloomFilter_Size:
  assumes "0 < sz" "sz \<le> MaxSize"
  shows "\<exists>f. NewInverseBloomFilter sz = Inr f
           \<and> (\<exists>k. Size f = 2 ^ k)
           \<and> sz \<le> Size f \<and> Size f < sz * 2
           \<and> (\<forall>j. sz \<le> 2 ^ j \<longrightarrow> Size f \<le> 2 ^ j)
           \<and> ((Size f = sz) = (\<exists>j. sz = 2 ^ j))
           \<and> array f = replicate (nat (Size f)) None"
proof -
  from pow2_bracket [OF assms(1)] obtain k where k: "2 ^ k < 2 * sz" "sz \<le> 2 ^ k"
    by blast
  let ?f = "\<lparr>array = replicate (2 ^ k) None, sizeMask = word_of_int (2 ^ k - 1),
             hash = offset32\<rparr>"
  have f: "NewInverseBloomFilter sz = Inr ?f"
    by (rule NewInverseBloomFilter_eq [OF k assms(2)])
  have s: "Size ?f = 2 ^ k"
    by (simp add: Size_def)
  have least: "\<forall>j. sz \<le> 2 ^ j \<longrightarrow> Size ?f \<le> 2 ^ j"
    unfolding s using pow2_least [OF k(1)] by blast
  have exact: "(Size ?f = sz) = (\<exists>j. sz = 2 ^ j)"
  proof
    assume "Size ?f = sz"
    with s show "\<exists>j. sz = 2 ^ j" by metis
  next
    assume "\<exists>j. sz = 2 ^ j"
    then obtain j where "sz = 2 ^ j" ..
    then have "sz \<le> 2 ^ j" by simp
    with least have "Size ?f \<le> 2 ^ j" by blast
    with \<open>sz = 2 ^ j\<close> k(2) s show "Size ?f = sz" by simp
  qed
  have empty: "array ?f = replicate (nat (Size ?f)) None"
    unfolding s by (simp add: nat_power_eq)
  have "\<exists>k. Size ?f = 2 ^ k"
    using s by blast
  moreover have "sz \<le> Size ?f" "Size ?f < sz * 2"
    using k s by simp_all
  ultimately show ?thesis
    using f least exact empty by blast
qed

theorem NewInverseBloomFilter_Size_witness:
  "(0::int) < 10 \<and> 10 \<le> MaxSize
   \<and> (\<exists>f. NewInverseBloomFilter 10 = Inr f \<and> Size f = 16
          \<and> array f = replicate 16 None)"
proof -
  have h: "(0::int) < 10" "10 \<le> MaxSize"
    by (simp_all add: MaxSize_val)
  from NewInverseBloomFilter_Size [OF h] obtain f k where f: "NewInverseBloomFilter 10 = Inr f"
    and k: "Size f = 2 ^ k" and b: "10 \<le> Size f" "Size f < 10 * 2"
    and l: "\<forall>j. (10::int) \<le> 2 ^ j \<longrightarrow> Size f \<le> 2 ^ j"
    and e: "array f = replicate (nat (Size f)) None"
    by blast
  from l have "(10::int) \<le> 2 ^ 4 \<longrightarrow> Size f \<le> 2 ^ 4" by (rule spec)
  then have "Size f \<le> 2 ^ 4" by simp
  moreover have "2 ^ 3 < Size f" using b(1) by simp
  then have "(2::int) ^ 3 < 2 ^ k" by (simp only: k)
  then have "3 < k" by (simp only: power_strict_increasing_iff) 
  then have "4 \<le> k" by simp
  then have "(2::int) ^ 4 \<le> 2 ^ k" by (rule power_increasing) simp
  ultimately have "Size f = 16" using k by simp
  with f e h show ?thesis by simp
qed

section \<open>\<^verbatim>\<open>Observe\<close> on a filter in use\<close>

lemma getAndSet_nat:
  "n < length arr \<Longrightarrow> getAndSet arr (int n) key = Some (arr ! n, arr[n := Some key])"
  by (simp add: getAndSet_eq)

lemma Observe_eq:
  assumes inv: "filter_inv i"
  shows "unat (spec_index (sizeMask i) key) < length (array i)"
    and "Observe i key =
           Some (bytes_Equal (array i ! unat (spec_index (sizeMask i) key)) (Some key),
                 i\<lparr>array := (array i)[unat (spec_index (sizeMask i) key) := Some key],
                   hash := offset32\<rparr>)"
proof -
  let ?n = "spec_index (sizeMask i) key"
  from inv have h: "hash i = offset32" and len: "length (array i) = Suc (unat (sizeMask i))"
    by (simp_all add: filter_inv_def)
  have idx: "slotIndex i key = Some ?n"
    using h by (rule slotIndex_spec)
  from slotIndex_bounds [OF idx] have le: "unat ?n \<le> unat (sizeMask i)"
    and s: "sint ?n = int (unat ?n)" .
  show lt: "unat ?n < length (array i)"
    using le len by simp
  have "getAndSet (array i) (int (unat ?n)) key =
          Some (array i ! unat ?n, (array i)[unat ?n := Some key])"
    using lt by (rule getAndSet_nat)
  then have "getAndSet (array i) (sint ?n) key =
          Some (array i ! unat ?n, (array i)[unat ?n := Some key])"
    by (simp only: s)
  then show "Observe i key =
           Some (bytes_Equal (array i ! unat ?n) (Some key),
                 i\<lparr>array := (array i)[unat ?n := Some key], hash := offset32\<rparr>)"
    by (simp add: Observe_def idx Reset_def)
qed

lemma Observe_inv:
  assumes "filter_inv i" "Observe i key = Some (b, i')"
  shows "filter_inv i'" and "length (array i') = length (array i)" and "sizeMask i' = sizeMask i"
  using assms Observe_eq(2) [OF assms(1), of key] by (auto simp: filter_inv_def)

lemma ObserveAll_inv:
  assumes "filter_inv i" "ObserveAll i keys = Some (bs, i')"
  shows "filter_inv i' \<and> length (array i') = length (array i) \<and> sizeMask i' = sizeMask i"
  using assms
proof (induction keys arbitrary: i bs)
  case Nil
  then show ?case by simp
next
  case (Cons key keys)
  from Cons.prems obtain b j bs' where o: "Observe i key = Some (b, j)"
    and r: "ObserveAll j keys = Some (bs', i')"
    by (auto split: option.splits prod.splits)
  from Observe_inv [OF Cons.prems(1) o] Cons.IH [OF _ r] show ?case
    by simp
qed

lemma ObserveAll_total:
  assumes "filter_inv i"
  shows "\<exists>bs i'. ObserveAll i keys = Some (bs, i') \<and> length bs = length keys"
  using assms
proof (induction keys arbitrary: i)
  case Nil
  then show ?case by simp
next
  case (Cons key keys)
  let ?j = "i\<lparr>array := (array i)[unat (spec_index (sizeMask i) key) := Some key],
              hash := offset32\<rparr>"
  have o: "Observe i key =
      Some (bytes_Equal (array i ! unat (spec_index (sizeMask i) key)) (Some key), ?j)"
    by (rule Observe_eq(2) [OF Cons.prems])
  have "filter_inv ?j"
    by (rule Observe_inv(1) [OF Cons.prems o])
  from Cons.IH [OF this] show ?case
    by (auto simp: o)
qed

lemma reachable_inv:
  assumes "NewInverseBloomFilter sz = Inr f0" "ObserveAll f0 keys = Some (bs, i)"
  shows "filter_inv i" and "length (array i) = length (array f0)" and "sizeMask i = sizeMask f0"
  using ObserveAll_inv [OF NewInverseBloomFilter_inv [OF assms(1)] assms(2)] by simp_all

section \<open>Runs on the filter of \<^verbatim>\<open>NewInverseBloomFilter(10)\<close>\<close>

text \<open>
  Sixteen slots and the mask 15. The empty key and the key \<^verbatim>\<open>"b"\<close> (byte 98) go to slot 13,
  the key \<^verbatim>\<open>"a"\<close> (byte 97) to slot 9.
\<close>

lemma fresh10:
  "NewInverseBloomFilter 10 =
     Inr \<lparr>array = replicate 16 None, sizeMask = 15, hash = offset32\<rparr>"
  using NewInverseBloomFilter_eq [of 4 10] by (simp add: MaxSize_val)

lemma spec_index_empty: "spec_index 15 [] = 13"
  by (simp add: spec_index_def digest_bytes_def fnv1a32_def)

lemma spec_index_a: "spec_index 15 [97] = 9"
  by (simp add: spec_index_def digest_bytes_def fnv1a32_def)

lemma spec_index_b: "spec_index 15 [98] = 13"
  by (simp add: spec_index_def digest_bytes_def fnv1a32_def)

lemma run_a:
  "ObserveAll \<lparr>array = replicate 16 None, sizeMask = 15, hash = offset32\<rparr> [[97]] =
     Some ([False], \<lparr>array = (replicate 16 None)[9 := Some [97]], sizeMask = 15,
                      hash = offset32\<rparr>)"
  by (simp add: Observe_eq(2) filter_inv_def spec_index_a bytes_Equal_def slice_bytes_def)

lemma run_ab:
  "ObserveAll \<lparr>array = (replicate 16 None)[9 := Some [97]], sizeMask = 15,
                 hash = offset32\<rparr> [[98]] =
     Some ([False], \<lparr>array = (replicate 16 None)[9 := Some [97], 13 := Some [98]],
                      sizeMask = 15, hash = offset32\<rparr>)"
  by (simp add: Observe_eq(2) filter_inv_def spec_index_b bytes_Equal_def slice_bytes_def)

section \<open>The index\<close>

text \<open>
  C3. On every filter that the constructor returned and any sequence of \<^verbatim>\<open>Observe\<close> calls
  has used, the index that \<^verbatim>\<open>Observe(key)\<close> computes is the index of the specification:
  the first three bytes of the FNV-1a digest of the key, folded with \<open>x = (x << 3) + d\<close>,
  and masked with \<open>sizeMask\<close>. The table has \<open>sizeMask + 1\<close> slots, the index is below the
  table length, and the call writes the key into the slot at that index.
\<close>

theorem Observe_index:
  assumes "NewInverseBloomFilter sz = Inr f0" "ObserveAll f0 keys = Some (bs, i)"
  shows "slotIndex i key = Some (spec_index (sizeMask i) key)
       \<and> length (array i) = Suc (unat (sizeMask i))
       \<and> unat (spec_index (sizeMask i) key) < length (array i)
       \<and> (\<exists>b. Observe i key =
                 Some (b, i\<lparr>array := (array i)[unat (spec_index (sizeMask i) key) := Some key],
                           hash := offset32\<rparr>))"
proof -
  have inv: "filter_inv i"
    by (rule reachable_inv(1) [OF assms])
  then have "hash i = offset32" and "length (array i) = Suc (unat (sizeMask i))"
    by (simp_all add: filter_inv_def)
  then show ?thesis
    using slotIndex_spec [of i key] Observe_eq [OF inv, of key] by simp
qed

theorem Observe_index_witness:
  "\<exists>f0 bs i. NewInverseBloomFilter 10 = Inr f0 \<and> ObserveAll f0 [[97]] = Some (bs, i)
     \<and> slotIndex i [98] = Some (spec_index (sizeMask i) [98])
     \<and> length (array i) = Suc (unat (sizeMask i))
     \<and> unat (spec_index (sizeMask i) [98]) < length (array i)
     \<and> (\<exists>b. Observe i [98] =
            Some (b, i\<lparr>array := (array i)[unat (spec_index (sizeMask i) [98]) := Some [98]],
                      hash := offset32\<rparr>))"
  using Observe_index [OF fresh10 run_a, of "[98]"] fresh10 run_a by blast

text \<open>
  C8. The index depends on the key and the mask only: on a filter in use, whatever calls
  were made before, and whatever further calls are made on the same filter, the index
  computed for a key is the same, and it is the index of the specification under the
  mask the constructor chose. Every call leaves the hasher in its initial state.
\<close>

theorem slotIndex_deterministic:
  assumes "NewInverseBloomFilter sz = Inr f0" "ObserveAll f0 keys = Some (bs, i)"
    and "ObserveAll i keys' = Some (bs', i')"
  shows "slotIndex i' key = slotIndex i key
       \<and> slotIndex i key = Some (spec_index (sizeMask f0) key)
       \<and> hash i = New32a \<and> hash i' = New32a"
proof -
  have inv: "filter_inv i" and m: "sizeMask i = sizeMask f0"
    using reachable_inv [OF assms(1,2)] by simp_all
  from ObserveAll_inv [OF inv assms(3)] have inv': "filter_inv i'"
    and m': "sizeMask i' = sizeMask i"
    by simp_all
  from inv inv' have h: "hash i = offset32" "hash i' = offset32"
    by (simp_all add: filter_inv_def)
  then show ?thesis
    using slotIndex_spec [of i key] slotIndex_spec [of i' key] m m' by (simp add: New32a_def)
qed

theorem slotIndex_deterministic_witness:
  "\<exists>f0 bs i bs' i'. NewInverseBloomFilter 10 = Inr f0 \<and> ObserveAll f0 [[97]] = Some (bs, i)
     \<and> ObserveAll i [[98]] = Some (bs', i')
     \<and> slotIndex i' [98] = slotIndex i [98]
     \<and> slotIndex i [98] = Some (spec_index (sizeMask f0) [98])
     \<and> hash i = New32a \<and> hash i' = New32a"
  using slotIndex_deterministic [OF fresh10 run_a run_ab, of "[98]"] fresh10 run_a run_ab
  by blast

section \<open>What a call changes\<close>

text \<open>
  C10. On a filter in use \<^verbatim>\<open>Observe(key)\<close> returns, its index is inside the table, the
  table length, the mask and \<^verbatim>\<open>Size()\<close> are unchanged, every slot other than the one at
  the index keeps its content, and the slot at the index holds the key.
\<close>

theorem Observe_frame:
  assumes "NewInverseBloomFilter sz = Inr f0" "ObserveAll f0 keys = Some (bs, i)"
  shows "\<exists>b i' n. Observe i key = Some (b, i') \<and> slotIndex i key = Some n
           \<and> unat n < length (array i)
           \<and> length (array i') = length (array i)
           \<and> sizeMask i' = sizeMask i
           \<and> Size i' = Size i
           \<and> (\<forall>j < length (array i). j \<noteq> unat n \<longrightarrow> array i' ! j = array i ! j)
           \<and> array i' ! unat n = Some key"
proof -
  have inv: "filter_inv i"
    by (rule reachable_inv(1) [OF assms])
  then have "slotIndex i key = Some (spec_index (sizeMask i) key)"
    by (simp add: slotIndex_spec filter_inv_def)
  then show ?thesis
    using Observe_eq [OF inv, of key] by (simp add: Size_def)
qed

theorem Observe_frame_witness:
  "\<exists>f0 bs i b i' n. NewInverseBloomFilter 10 = Inr f0 \<and> ObserveAll f0 [[97]] = Some (bs, i)
     \<and> Observe i [98] = Some (b, i') \<and> slotIndex i [98] = Some n
     \<and> unat n < length (array i)
     \<and> length (array i') = length (array i)
     \<and> sizeMask i' = sizeMask i
     \<and> Size i' = Size i
     \<and> array i ! 9 = Some [97] \<and> array i' ! 9 = array i ! 9
     \<and> array i' ! unat n = Some [98]"
proof -
  let ?i = "\<lparr>array = (replicate 16 None)[9 := Some [97]], sizeMask = 15, hash = offset32\<rparr>"
  from Observe_frame [OF fresh10 run_a, of "[98]"]
  obtain b i' n where o: "Observe ?i [98] = Some (b, i')" and n: "slotIndex ?i [98] = Some n"
    and rest: "unat n < length (array ?i)" "length (array i') = length (array ?i)"
      "sizeMask i' = sizeMask ?i" "Size i' = Size ?i" "array i' ! unat n = Some [98]"
    and frame: "\<forall>j < length (array ?i). j \<noteq> unat n \<longrightarrow> array i' ! j = array ?i ! j"
    by blast
  have "slotIndex ?i [98] = Some 13"
    by (simp add: slotIndex_spec spec_index_b)
  with n have "unat n = 13"
    by simp
  with frame have "array i' ! 9 = array ?i ! 9"
    by simp
  moreover have "array ?i ! 9 = Some [97]"
    by simp
  ultimately show ?thesis
    using fresh10 run_a o n rest by blast
qed

section \<open>The answer of \<^verbatim>\<open>Observe\<close> and the empty key\<close>

text \<open>
  \<^verbatim>\<open>getAndSet\<close> returns a nil slice for a slot that was never written, and \<^verbatim>\<open>bytes.Equal\<close>
  takes a nil slice for an empty one. So the answer is \<open>True\<close> when the slot holds the key,
  and also when the slot is empty and the key is empty.
\<close>

lemma fresh_slots:
  assumes "NewInverseBloomFilter sz = Inr f"
  shows "array f ! n = None \<or> length (array f) \<le> n"
  using assms by (auto simp: NewInverseBloomFilter_def Let_def split: if_splits)

lemma Observe_answer:
  assumes "filter_inv i" "Observe i key = Some (b, i')"
  shows "b = (case array i ! unat (spec_index (sizeMask i) key) of
                None \<Rightarrow> key = [] | Some k \<Rightarrow> k = key)"
  using assms Observe_eq(2) [OF assms(1), of key]
  by (auto simp: bytes_Equal_def slice_bytes_def split: option.splits)

lemma ObserveAll_seen:
  assumes "filter_inv i" "\<forall>k. Some k \<in> set (array i) \<longrightarrow> k \<in> K"
    and "ObserveAll i keys = Some (bs, i')" "n < length keys" "bs ! n" "keys ! n \<noteq> []"
  shows "keys ! n \<in> K \<union> set (take n keys)"
  using assms
proof (induction keys arbitrary: i K n bs)
  case Nil
  then show ?case by simp
next
  case (Cons key keys)
  let ?m = "unat (spec_index (sizeMask i) key)"
  let ?j = "i\<lparr>array := (array i)[?m := Some key], hash := offset32\<rparr>"
  have lt: "?m < length (array i)"
    by (rule Observe_eq(1) [OF Cons.prems(1)])
  have o: "Observe i key = Some (bytes_Equal (array i ! ?m) (Some key), ?j)"
    by (rule Observe_eq(2) [OF Cons.prems(1)])
  from Cons.prems(3) o obtain bs' where r: "ObserveAll ?j keys = Some (bs', i')"
    and bs: "bs = bytes_Equal (array i ! ?m) (Some key) # bs'"
    by (auto split: option.splits)
  show ?case
  proof (cases n)
    case 0
    with Cons.prems(5,6) bs have "array i ! ?m = Some key"
      by (auto simp: bytes_Equal_def slice_bytes_def split: option.splits)
    with lt have "Some key \<in> set (array i)"
      by (metis nth_mem)
    with Cons.prems(2) 0 show ?thesis by simp
  next
    case (Suc n')
    have inv: "filter_inv ?j"
      by (rule Observe_inv(1) [OF Cons.prems(1) o])
    have "set (array ?j) \<subseteq> insert (Some key) (set (array i))"
      by (simp add: set_update_subset_insert)
    with Cons.prems(2) have K: "\<forall>k. Some k \<in> set (array ?j) \<longrightarrow> k \<in> insert key K"
      by auto
    from Cons.prems(4,5,6) Suc bs have "n' < length keys" "bs' ! n'" "keys ! n' \<noteq> []"
      by simp_all
    from Cons.IH [OF inv K r this] Suc show ?thesis
      by auto
  qed
qed

text \<open>
  For keys that are not empty the documented behaviour holds: an answer \<open>True\<close> means that
  the key was passed to an earlier call, the second of two calls with the same key on a
  fresh filter answers \<open>True\<close> after the first answered \<open>False\<close>, and a colliding key evicts.
\<close>

lemma no_false_positive_nonempty:
  assumes "NewInverseBloomFilter sz = Inr f0" "ObserveAll f0 keys = Some (bs, i)"
    and "n < length keys" "bs ! n" "keys ! n \<noteq> []"
  shows "keys ! n \<in> set (take n keys)"
proof -
  have "\<forall>k. Some k \<in> set (array f0) \<longrightarrow> k \<in> {}"
    using fresh_slots [OF assms(1)] by (metis in_set_conv_nth not_le option.distinct(1))
  from ObserveAll_seen [OF NewInverseBloomFilter_inv [OF assms(1)] this assms(2-5)]
  show ?thesis by simp
qed

lemma recall_nonempty:
  assumes "NewInverseBloomFilter sz = Inr f0" "key \<noteq> []"
  shows "fresh_run sz [key, key] = Some [False, True]"
proof -
  let ?m = "unat (spec_index (sizeMask f0) key)"
  have inv: "filter_inv f0"
    by (rule NewInverseBloomFilter_inv [OF assms(1)])
  have lt: "?m < length (array f0)"
    by (rule Observe_eq(1) [OF inv])
  with fresh_slots [OF assms(1), of ?m] have "array f0 ! ?m = None"
    by simp
  then show ?thesis
    using inv lt assms
    by (simp add: fresh_run_def Observe_eq(2) filter_inv_def bytes_Equal_def slice_bytes_def)
qed

lemma eviction_nonempty:
  assumes "NewInverseBloomFilter sz = Inr f0" "k1 \<noteq> k2" "k1 \<noteq> []"
    and "slotIndex f0 k1 = slotIndex f0 k2"
  shows "fresh_run sz [k1, k2, k1] = Some [False, False, False]"
proof -
  let ?m = "unat (spec_index (sizeMask f0) k1)"
  have inv: "filter_inv f0"
    by (rule NewInverseBloomFilter_inv [OF assms(1)])
  then have "hash f0 = offset32"
    by (simp add: filter_inv_def)
  with assms(4) have same: "spec_index (sizeMask f0) k2 = spec_index (sizeMask f0) k1"
    by (simp add: slotIndex_spec)
  have lt: "?m < length (array f0)"
    by (rule Observe_eq(1) [OF inv])
  with fresh_slots [OF assms(1), of ?m] have "array f0 ! ?m = None"
    by simp
  then show ?thesis
    using inv lt assms(1,2,3) same
    by (auto simp: fresh_run_def Observe_eq(2) filter_inv_def bytes_Equal_def slice_bytes_def)
qed

text \<open>
  C1. The claim: an answer \<open>True\<close> is given only for a key passed to an earlier call, and
  the first call on a fresh filter answers \<open>False\<close> for every key, the empty one included.
  The code at the empty key: the first call on the filter of \<^verbatim>\<open>NewInverseBloomFilter(10)\<close>
  answers \<open>True\<close>.
\<close>

theorem first_Observe_empty_key: "fresh_run 10 [[]] = Some [True]"
  by (simp add: fresh_run_def fresh10 Observe_eq(2) filter_inv_def spec_index_empty
      bytes_Equal_def slice_bytes_def)

text \<open>
  C2. The claim: the answer is \<open>True\<close> exactly when the slot held a key equal to the
  argument, and \<open>False\<close> when the slot was empty. The code on the fresh filter of size 10
  and the empty key: the index is 13, slot 13 is empty, and the answer is \<open>True\<close>.
\<close>

theorem Observe_empty_slot_empty_key:
  "NewInverseBloomFilter 10 = Inr \<lparr>array = replicate 16 None, sizeMask = 15, hash = offset32\<rparr>
   \<and> slotIndex \<lparr>array = replicate 16 None, sizeMask = 15, hash = offset32\<rparr> [] = Some 13
   \<and> replicate 16 (None :: byte list option) ! 13 = None
   \<and> map_option fst
        (Observe \<lparr>array = replicate 16 None, sizeMask = 15, hash = offset32\<rparr> []) = Some True"
  by (simp add: fresh10 slotIndex_spec Observe_eq(2) filter_inv_def spec_index_empty
      bytes_Equal_def slice_bytes_def)

text \<open>
  C6. The claim: for every key, two calls in a row on a fresh filter answer \<open>False\<close> and
  then \<open>True\<close>. The code at the empty key: both calls answer \<open>True\<close>.
\<close>

theorem recall_empty_key: "fresh_run 10 [[], []] = Some [True, True]"
  by (simp add: fresh_run_def fresh10 Observe_eq(2) filter_inv_def spec_index_empty
      bytes_Equal_def slice_bytes_def)

text \<open>
  C7. The claim: for distinct keys \<open>k1\<close>, \<open>k2\<close> with the same index, the calls with \<open>k1\<close>,
  \<open>k2\<close>, \<open>k1\<close> on a fresh filter answer \<open>False\<close>, \<open>False\<close>, \<open>False\<close>. The code at
  \<open>k1\<close> empty and \<open>k2\<close> the key \<^verbatim>\<open>"b"\<close>, which share slot 13 of the filter of size 10: the
  answers are \<open>True\<close>, \<open>False\<close>, \<open>False\<close>.
\<close>

theorem eviction_empty_key:
  "[] \<noteq> [98 :: byte]
   \<and> slotIndex \<lparr>array = replicate 16 None, sizeMask = 15, hash = offset32\<rparr> []
     = slotIndex \<lparr>array = replicate 16 None, sizeMask = 15, hash = offset32\<rparr> [98]
   \<and> fresh_run 10 [[], [98], []] = Some [True, False, False]"
  by (simp add: fresh_run_def fresh10 slotIndex_spec Observe_eq(2) filter_inv_def
      spec_index_empty spec_index_b bytes_Equal_def slice_bytes_def)

end
